theory Spec2Isabelle
  imports Main
begin

section \<open>Data model\<close>

text \<open>
  The repository holds three variants of one pipeline: \<^verbatim>\<open>chainplays.py\<close>
  (windowed vote), \<^verbatim>\<open>chainplaysChaos.py\<close> (every vote is an action) and
  \<^verbatim>\<open>chainplaysTESTING.py\<close> (the minimal variant). The web3 client and the PyBoy
  emulator are external: a call to them is modelled by the value it returns or the
  exception it raises.
\<close>

datatype error = TransportError | DecodeError | IndexError

text \<open>\<^verbatim>\<open>evt["args"]\<close>: the decoded fields of a Move event.\<close>

record event_args =
  sender :: string
  cmd :: int
  weight :: int
  memo :: string

text \<open>
  A raw log as \<^verbatim>\<open>get_logs\<close> returns it, by what \<^verbatim>\<open>get_event_data\<close> does on it:
  it returns the event's fields, or it raises.
\<close>

datatype raw_log = MoveLog event_args | Undecodable

fun get_event_data :: "raw_log \<Rightarrow> error + event_args" where
  "get_event_data (MoveLog a) = Inr a"
| "get_event_data Undecodable = Inl DecodeError"

text \<open>The dictionary \<^verbatim>\<open>CMD_INDEX_TO_BUTTON\<close>, the same literal in the three files.\<close>

definition CMD_INDEX_TO_BUTTON :: "int \<rightharpoonup> string" where
  "CMD_INDEX_TO_BUTTON = map_of
     [(0, ''up''), (1, ''down''), (2, ''left''), (3, ''right''),
      (4, ''a''), (5, ''b''), (6, ''start''), (7, ''select'')]"

text \<open>
  Python's truth value of \<^verbatim>\<open>CMD_INDEX_TO_BUTTON.get(cmd)\<close> in \<^verbatim>\<open>if btn:\<close>:
  \<^verbatim>\<open>None\<close> and the empty string are false.
\<close>

fun truthy :: "string option \<Rightarrow> bool" where
  "truthy None = False"
| "truthy (Some b) = (b \<noteq> [])"

text \<open>
  \<^verbatim>\<open>tally = collections.Counter()\<close>: a dictionary from command index to count that
  keeps its keys in the order of their first insertion, so it is an association list.
  \<^verbatim>\<open>tally[cmd] += 1\<close> reads a missing key as 0, updates a present key in place and
  appends a new key at the end.
\<close>

type_synonym counter = "(int \<times> int) list"

fun tally_incr :: "int \<Rightarrow> counter \<Rightarrow> counter" where
  "tally_incr k [] = [(k, 0 + 1)]"
| "tally_incr k ((k', n) # t) =
     (if k = k' then (k', n + 1) # t else (k', n) # tally_incr k t)"

text \<open>
  \<^verbatim>\<open>Counter.most_common(1)\<close> is \<^verbatim>\<open>heapq.nlargest(1, items, key=count)\<close>, which for
  \<^verbatim>\<open>n == 1\<close> is \<^verbatim>\<open>max(items, key=count)\<close>: one pass that keeps the item seen so
  far and replaces it only by a strictly greater one; the empty list on no items.
\<close>

fun max_item :: "int \<times> int \<Rightarrow> counter \<Rightarrow> int \<times> int" where
  "max_item best [] = best"
| "max_item best (x # xs) = max_item (if snd best < snd x then x else best) xs"

fun most_common_1 :: "counter \<Rightarrow> counter" where
  "most_common_1 [] = []"
| "most_common_1 (x # xs) = [max_item x xs]"

text \<open>
  The state the threads share (\<^verbatim>\<open>tally\<close>, \<^verbatim>\<open>actions_q\<close>), the listener's cursor
  \<^verbatim>\<open>last_block\<close>, and the block ranges the listener has asked \<^verbatim>\<open>get_logs\<close> for, in
  order. The chaos and the minimal variant have no tally: their functions leave the
  field as it is.
\<close>

record state =
  last_block :: int
  tally :: counter
  actions_q :: "string list"
  requests :: "(int \<times> int) list"

section \<open>The vote aggregator (chainplays.py)\<close>

text \<open>
  One iteration of \<^verbatim>\<open>vote_aggregator\<close>'s loop, after its sleep. The read and the clear
  happen under \<^verbatim>\<open>tally_lock\<close>. \<^verbatim>\<open>most_common(1)[0]\<close> raises IndexError on an empty
  list.
\<close>

definition vote_aggregator_tick :: "state \<Rightarrow> error + state" where
  "vote_aggregator_tick s =
     (if tally s = [] then Inr s
      else (case most_common_1 (tally s) of
              [] \<Rightarrow> Inl IndexError
            | (cmd_idx, _) # _ \<Rightarrow>
                (let s' = s\<lparr>tally := []\<rparr>;
                     btn = CMD_INDEX_TO_BUTTON cmd_idx
                 in (case btn of
                       None \<Rightarrow> Inr s'
                     | Some b \<Rightarrow>
                         if truthy btn then Inr (s'\<lparr>actions_q := actions_q s' @ [b]\<rparr>)
                         else Inr s'))))"

section \<open>The chain listener\<close>

text \<open>
  What the node answers during one cycle of \<^verbatim>\<open>chain_listener\<close>'s loop:
  \<^verbatim>\<open>w3.eth.block_number\<close>, and \<^verbatim>\<open>w3.eth.get_logs\<close> for a range
  \<^verbatim>\<open>fromBlock\<close>, \<^verbatim>\<open>toBlock\<close>. Either may raise.
\<close>

record rpc =
  block_number :: "error + int"
  get_logs :: "int \<Rightarrow> int \<Rightarrow> error + raw_log list"

text \<open>
  \<^verbatim>\<open>for log in logs\<close> of chainplays.py: decode, then \<^verbatim>\<open>tally[cmd] += 1\<close> under the
  lock. An exception leaves the loop with the increments made so far in place; it is
  the first component of the result. The \<^verbatim>\<open>print\<close> after the increment, which shows
  \<^verbatim>\<open>'?'\<close> for an index the mapping does not have, changes no state.
\<close>

fun process_logs :: "raw_log list \<Rightarrow> counter \<Rightarrow> error option \<times> counter" where
  "process_logs [] t = (None, t)"
| "process_logs (log # logs) t =
     (case get_event_data log of
        Inl e \<Rightarrow> (Some e, t)
      | Inr evt \<Rightarrow> process_logs logs (tally_incr (cmd evt) t))"

text \<open>
  One pass of the \<^verbatim>\<open>try\<close> block of \<^verbatim>\<open>chain_listener\<close> (chainplays.py). The first
  component is the exception the \<^verbatim>\<open>except\<close> branch caught, if any; that branch prints
  and sleeps, and the loop goes on.
\<close>

definition chain_listener_cycle :: "rpc \<Rightarrow> state \<Rightarrow> error option \<times> state" where
  "chain_listener_cycle w3 s =
     (case block_number w3 of
        Inl e \<Rightarrow> (Some e, s)
      | Inr latest \<Rightarrow>
          if latest \<ge> last_block s then
            (let s1 = s\<lparr>requests := requests s @ [(last_block s, latest)]\<rparr> in
             case get_logs w3 (last_block s) latest of
               Inl e \<Rightarrow> (Some e, s1)
             | Inr logs \<Rightarrow>
                 (case process_logs logs (tally s1) of
                    (Some e, t) \<Rightarrow> (Some e, s1\<lparr>tally := t\<rparr>)
                  | (None, t) \<Rightarrow> (None, s1\<lparr>tally := t, last_block := latest + 1\<rparr>)))
          else (None, s))"

text \<open>The loop, for as many cycles as there are answers.\<close>

fun chain_listener_cycles :: "rpc list \<Rightarrow> state \<Rightarrow> state" where
  "chain_listener_cycles [] s = s"
| "chain_listener_cycles (w3 # rest) s =
     chain_listener_cycles rest (snd (chain_listener_cycle w3 s))"

text \<open>
  \<^verbatim>\<open>chain_listener\<close>: \<^verbatim>\<open>last_block = w3.eth.block_number\<close> stands before the loop and
  outside its \<^verbatim>\<open>try\<close>.
\<close>

definition chain_listener :: "rpc \<Rightarrow> rpc list \<Rightarrow> state \<Rightarrow> error + state" where
  "chain_listener w0 ws s =
     (case block_number w0 of
        Inl e \<Rightarrow> Inl e
      | Inr b \<Rightarrow> Inr (chain_listener_cycles ws (s\<lparr>last_block := b\<rparr>)))"

text \<open>
  chainplaysChaos.py: the listener maps each decoded vote and puts the button on the
  queue itself.
\<close>

fun process_logs_Chaos :: "raw_log list \<Rightarrow> string list \<Rightarrow> error option \<times> string list" where
  "process_logs_Chaos [] q = (None, q)"
| "process_logs_Chaos (log # logs) q =
     (case get_event_data log of
        Inl e \<Rightarrow> (Some e, q)
      | Inr evt \<Rightarrow>
          (let btn = CMD_INDEX_TO_BUTTON (cmd evt) in
           case btn of
             None \<Rightarrow> process_logs_Chaos logs q
           | Some b \<Rightarrow>
               if truthy btn then process_logs_Chaos logs (q @ [b])
               else process_logs_Chaos logs q))"

definition chain_listener_cycle_Chaos :: "rpc \<Rightarrow> state \<Rightarrow> error option \<times> state" where
  "chain_listener_cycle_Chaos w3 s =
     (case block_number w3 of
        Inl e \<Rightarrow> (Some e, s)
      | Inr latest \<Rightarrow>
          if latest \<ge> last_block s then
            (let s1 = s\<lparr>requests := requests s @ [(last_block s, latest)]\<rparr> in
             case get_logs w3 (last_block s) latest of
               Inl e \<Rightarrow> (Some e, s1)
             | Inr logs \<Rightarrow>
                 (case process_logs_Chaos logs (actions_q s1) of
                    (Some e, q) \<Rightarrow> (Some e, s1\<lparr>actions_q := q\<rparr>)
                  | (None, q) \<Rightarrow> (None, s1\<lparr>actions_q := q, last_block := latest + 1\<rparr>)))
          else (None, s))"

text \<open>chainplaysTESTING.py: the same loop (other sleeps, other messages).\<close>

fun process_logs_TESTING :: "raw_log list \<Rightarrow> string list \<Rightarrow> error option \<times> string list" where
  "process_logs_TESTING [] q = (None, q)"
| "process_logs_TESTING (log # logs) q =
     (case get_event_data log of
        Inl e \<Rightarrow> (Some e, q)
      | Inr evt \<Rightarrow>
          (let btn = CMD_INDEX_TO_BUTTON (cmd evt) in
           case btn of
             None \<Rightarrow> process_logs_TESTING logs q
           | Some b \<Rightarrow>
               if truthy btn then process_logs_TESTING logs (q @ [b])
               else process_logs_TESTING logs q))"

definition chain_listener_cycle_TESTING :: "rpc \<Rightarrow> state \<Rightarrow> error option \<times> state" where
  "chain_listener_cycle_TESTING w3 s =
     (case block_number w3 of
        Inl e \<Rightarrow> (Some e, s)
      | Inr latest \<Rightarrow>
          if latest \<ge> last_block s then
            (let s1 = s\<lparr>requests := requests s @ [(last_block s, latest)]\<rparr> in
             case get_logs w3 (last_block s) latest of
               Inl e \<Rightarrow> (Some e, s1)
             | Inr logs \<Rightarrow>
                 (case process_logs_TESTING logs (actions_q s1) of
                    (Some e, q) \<Rightarrow> (Some e, s1\<lparr>actions_q := q\<rparr>)
                  | (None, q) \<Rightarrow> (None, s1\<lparr>actions_q := q, last_block := latest + 1\<rparr>)))
          else (None, s))"

section \<open>The emulator and the applicator\<close>

text \<open>
  The calls the main thread makes on the PyBoy object, in order. \<^verbatim>\<open>tick()\<close> returns
  a boolean, \<^verbatim>\<open>False\<close> once the session has ended (the window was closed);
  \<^verbatim>\<open>tick_result p n\<close> is what the call number \<open>n\<close> returns, counted from 0.
  The sleeps and the prints of the loops change neither the queue nor the emulator and
  are left out.
\<close>

datatype emu_op = Button string bool | Tick

record pyboy =
  tick_result :: "nat \<Rightarrow> bool"
  ticks :: nat
  ops :: "emu_op list"

definition tick :: "pyboy \<Rightarrow> bool \<times> pyboy" where
  "tick p = (tick_result p (ticks p), p\<lparr>ticks := Suc (ticks p), ops := ops p @ [Tick]\<rparr>)"

definition button :: "string \<Rightarrow> bool \<Rightarrow> pyboy \<Rightarrow> pyboy" where
  "button btn v p = p\<lparr>ops := ops p @ [Button btn v]\<rparr>"

text \<open>\<^verbatim>\<open>for _ in range(n): pyboy.tick()\<close>: the value of each call is dropped.\<close>

fun tick_times :: "nat \<Rightarrow> pyboy \<Rightarrow> pyboy" where
  "tick_times 0 p = p"
| "tick_times (Suc n) p = tick_times n (snd (tick p))"

text \<open>
  The three files set \<^verbatim>\<open>PRINT_ONLY = False\<close>. With \<^verbatim>\<open>True\<close> the main thread
  creates no emulator: it takes an action off the queue when there is one and prints it.
\<close>

definition PRINT_ONLY :: bool where
  "PRINT_ONLY = False"

definition print_only_iteration :: "string list \<Rightarrow> string list" where
  "print_only_iteration q = (case q of [] \<Rightarrow> q | btn # q' \<Rightarrow> q')"

text \<open>
  The main threads run \<^verbatim>\<open>while True\<close>, and the other threads put actions on the queue
  meanwhile. A run is modelled for as many iterations as the list \<open>arrivals\<close> is long:
  its \<open>i\<close>-th entry holds the actions put on the queue since the pop before, in order.
\<close>

fun print_only_loop :: "string list list \<Rightarrow> string list \<Rightarrow> string list" where
  "print_only_loop [] q = q"
| "print_only_loop (arr # rest) q = print_only_loop rest (print_only_iteration (q @ arr))"

text \<open>
  chainplays.py, one iteration of the emulation loop: \<^verbatim>\<open>get_nowait()\<close> pops the head
  of the queue or raises \<^verbatim>\<open>queue.Empty\<close>.
\<close>

definition main_iteration :: "string list \<Rightarrow> pyboy \<Rightarrow> string list \<times> pyboy" where
  "main_iteration q p =
     (case q of
        [] \<Rightarrow> (q, snd (tick p))
      | btn # q' \<Rightarrow>
          (q', tick_times 2 (button btn False (tick_times 6 (button btn True p)))))"

fun main_loop :: "string list list \<Rightarrow> string list \<Rightarrow> pyboy \<Rightarrow> string list \<times> pyboy" where
  "main_loop [] q p = (q, p)"
| "main_loop (arr # rest) q p =
     (case main_iteration (q @ arr) p of (q', p') \<Rightarrow> main_loop rest q' p')"

definition main :: "string list list \<Rightarrow> pyboy \<Rightarrow> string list \<times> pyboy" where
  "main arrivals p =
     (if PRINT_ONLY then (print_only_loop arrivals [], p)
      else main_loop arrivals [] (tick_times 240 p))"

text \<open>chainplaysChaos.py: one tick with the button down, then the release.\<close>

definition main_iteration_Chaos :: "string list \<Rightarrow> pyboy \<Rightarrow> string list \<times> pyboy" where
  "main_iteration_Chaos q p =
     (case q of
        [] \<Rightarrow> (q, snd (tick p))
      | btn # q' \<Rightarrow> (q', button btn False (snd (tick (button btn True p)))))"

fun main_loop_Chaos :: "string list list \<Rightarrow> string list \<Rightarrow> pyboy \<Rightarrow> string list \<times> pyboy" where
  "main_loop_Chaos [] q p = (q, p)"
| "main_loop_Chaos (arr # rest) q p =
     (case main_iteration_Chaos (q @ arr) p of (q', p') \<Rightarrow> main_loop_Chaos rest q' p')"

definition main_Chaos :: "string list list \<Rightarrow> pyboy \<Rightarrow> string list \<times> pyboy" where
  "main_Chaos arrivals p =
     (if PRINT_ONLY then (print_only_loop arrivals [], p)
      else main_loop_Chaos arrivals [] (tick_times 240 p))"

text \<open>
  chainplaysTESTING.py tests every tick: \<^verbatim>\<open>if pyboy.tick() is False: return\<close>.
  \<open>Returned\<close>: \<^verbatim>\<open>main\<close> has returned; \<open>Looping\<close>: it is still in its loop when the
  modelled iterations are over.
\<close>

datatype outcome = Returned | Looping

fun warmup_TESTING :: "nat \<Rightarrow> pyboy \<Rightarrow> outcome \<times> pyboy" where
  "warmup_TESTING 0 p = (Looping, p)"
| "warmup_TESTING (Suc n) p =
     (case tick p of (r, p') \<Rightarrow> if r = False then (Returned, p') else warmup_TESTING n p')"

definition main_iteration_TESTING ::
  "string list \<Rightarrow> pyboy \<Rightarrow> outcome \<times> string list \<times> pyboy" where
  "main_iteration_TESTING q p =
     (case q of
        [] \<Rightarrow>
          (case tick p of (r, p1) \<Rightarrow>
             if r = False then (Returned, q, p1) else (Looping, q, p1))
      | btn # q' \<Rightarrow>
          (case tick (button btn True p) of (r1, p1) \<Rightarrow>
             if r1 = False then (Returned, q', p1)
             else (case tick (button btn False p1) of (r2, p2) \<Rightarrow>
                     if r2 = False then (Returned, q', p2) else (Looping, q', p2))))"

fun main_loop_TESTING ::
  "string list list \<Rightarrow> string list \<Rightarrow> pyboy \<Rightarrow> outcome \<times> string list \<times> pyboy" where
  "main_loop_TESTING [] q p = (Looping, q, p)"
| "main_loop_TESTING (arr # rest) q p =
     (case main_iteration_TESTING (q @ arr) p of
        (Returned, q', p') \<Rightarrow> (Returned, q', p')
      | (Looping, q', p') \<Rightarrow> main_loop_TESTING rest q' p')"

definition main_TESTING :: "string list list \<Rightarrow> pyboy \<Rightarrow> outcome \<times> string list \<times> pyboy" where
  "main_TESTING arrivals p =
     (if PRINT_ONLY then (Looping, print_only_loop arrivals [], p)
      else (case warmup_TESTING 240 p of
              (Returned, p') \<Rightarrow> (Returned, [], p')
            | (Looping, p') \<Rightarrow> main_loop_TESTING arrivals [] p'))"

section \<open>The threads of chainplays.py together\<close>

text \<open>
  The listener, the aggregator and the main thread run at the same time on the shared
  tally and queue. One step of one of them: the listener counts a decoded vote under
  the lock; the listener moves its cursor and notes a request; the aggregator runs one
  tick; the main thread takes the head of the queue. The aggregator alone puts on the
  queue in this variant, so its put, which follows the release of the lock, is
  taken together with the clear: in between, the queue is the one before the tick.
\<close>

inductive windowed_step :: "state \<Rightarrow> state \<Rightarrow> bool" where
  listener_vote: "windowed_step s (s\<lparr>tally := tally_incr c (tally s)\<rparr>)"
| listener_cursor: "windowed_step s (s\<lparr>last_block := b, requests := r\<rparr>)"
| aggregator_tick: "vote_aggregator_tick s = Inr s' \<Longrightarrow> windowed_step s s'"
| main_pop: "actions_q s = btn # q \<Longrightarrow> windowed_step s (s\<lparr>actions_q := q\<rparr>)"

inductive windowed_reachable :: "state \<Rightarrow> bool" where
  start: "tally s = [] \<Longrightarrow> actions_q s = [] \<Longrightarrow> windowed_reachable s"
| step: "windowed_reachable s \<Longrightarrow> windowed_step s s' \<Longrightarrow> windowed_reachable s'"

text \<open>
  A run of the minimal variant's main thread from emulator \<open>p\<close> to \<open>p'\<close> stops at
  the signal: every tick but the last returned true, a run still looping has seen no
  false tick, and a run that returned has the false tick as its last operation.
\<close>

definition stops_at_signal :: "pyboy \<Rightarrow> outcome \<Rightarrow> pyboy \<Rightarrow> bool" where
  "stops_at_signal p out p' \<longleftrightarrow>
     tick_result p' = tick_result p \<and> ticks p \<le> ticks p' \<and>
     (case out of
        Looping \<Rightarrow> (\<forall>k \<in> {ticks p ..< ticks p'}. tick_result p k)
      | Returned \<Rightarrow>
          ticks p < ticks p' \<and> (\<forall>k \<in> {ticks p ..< ticks p' - 1}. tick_result p k) \<and>
          \<not> tick_result p (ticks p' - 1) \<and> ops p' \<noteq> [] \<and> last (ops p') = Tick)"

section \<open>Example inputs\<close>

definition init_state :: state where
  "init_state = \<lparr>last_block = 100, tally = [], actions_q = [], requests = []\<rparr>"

definition tie_state :: state where
  "tie_state = \<lparr>last_block = 100, tally = [(0, 500), (1, 500)], actions_q = [], requests = []\<rparr>"

definition vote_args :: "int \<Rightarrow> event_args" where
  "vote_args c = \<lparr>sender = ''0xabc'', cmd = c, weight = 1, memo = ''hi''\<rparr>"

definition vote :: "int \<Rightarrow> raw_log" where
  "vote c = MoveLog (vote_args c)"

definition rpc_logs :: "int \<Rightarrow> raw_log list \<Rightarrow> rpc" where
  "rpc_logs head logs = \<lparr>block_number = Inr head, get_logs = (\<lambda>from to. Inr logs)\<rparr>"

definition rpc_fetch_error :: "int \<Rightarrow> rpc" where
  "rpc_fetch_error head =
     \<lparr>block_number = Inr head, get_logs = (\<lambda>from to. Inl TransportError)\<rparr>"

definition open_pyboy :: pyboy where
  "open_pyboy = \<lparr>tick_result = (\<lambda>n. True), ticks = 0, ops = []\<rparr>"

definition closed_pyboy :: pyboy where
  "closed_pyboy = \<lparr>tick_result = (\<lambda>n. False), ticks = 0, ops = []\<rparr>"

definition unmapped_winner_state :: state where
  "unmapped_winner_state =
     \<lparr>last_block = 100, tally = [(9, 3), (2, 2)], actions_q = [''a''], requests = []\<rparr>"

definition empty_tally_state :: state where
  "empty_tally_state = \<lparr>last_block = 100, tally = [], actions_q = [''a''], requests = []\<rparr>"

definition bad_batch :: "raw_log list" where
  "bad_batch = [vote 2, Undecodable, vote 5]"

definition scenario_logs :: "raw_log list" where
  "scenario_logs = [vote 2, vote 2, vote 5]"

definition after_unmapped_vote :: state where
  "after_unmapped_vote = snd (chain_listener_cycle (rpc_logs 100 [vote 9]) init_state)"

definition after_scenario_tick :: state where
  "after_scenario_tick =
     projr (vote_aggregator_tick (snd (chain_listener_cycle (rpc_logs 100 scenario_logs) init_state)))"

section \<open>Properties of the tally\<close>

lemma max_item_mem: "max_item b xs \<in> set (b # xs)"
  by (induction xs arbitrary: b) auto

lemma max_item_ge_start: "snd b \<le> snd (max_item b xs)"
proof (induction xs arbitrary: b)
  case Nil
  show ?case by simp
next
  case (Cons x xs)
  have "snd b \<le> snd (if snd b < snd x then x else b)" by simp
  also have "\<dots> \<le> snd (max_item (if snd b < snd x then x else b) xs)" by (rule Cons.IH)
  finally show ?case by simp
qed

lemma max_item_ge: "y \<in> set (b # xs) \<Longrightarrow> snd y \<le> snd (max_item b xs)"
proof (induction xs arbitrary: b)
  case Nil
  then show ?case by simp
next
  case (Cons x xs)
  let ?b' = "if snd b < snd x then x else b"
  from Cons.prems consider "y = b" | "y = x" | "y \<in> set xs" by auto
  then show ?case
  proof cases
    case 1
    then show ?thesis using max_item_ge_start [of b "x # xs"] by simp
  next
    case 2
    have "snd x \<le> snd ?b'" by simp
    also have "\<dots> \<le> snd (max_item ?b' xs)" by (rule max_item_ge_start)
    finally show ?thesis using 2 by simp
  next
    case 3
    then have "snd y \<le> snd (max_item ?b' xs)" using Cons.IH [of ?b'] by simp
    then show ?thesis by simp
  qed
qed

lemma max_item_first:
  "\<exists>pre post. b # xs = pre @ max_item b xs # post \<and> (\<forall>y \<in> set pre. snd y < snd (max_item b xs))"
proof (induction xs arbitrary: b)
  case Nil
  have "[b] = [] @ max_item b [] # [] \<and> (\<forall>y \<in> set []. snd y < snd (max_item b []))" by simp
  then show ?case by blast
next
  case (Cons x xs)
  define b' where "b' = (if snd b < snd x then x else b)"
  define m where "m = max_item b' xs"
  obtain pre post where split: "b' # xs = pre @ m # post"
    and less: "\<forall>y \<in> set pre. snd y < snd m"
    using Cons.IH [of b'] unfolding m_def by blast
  have m: "max_item b (x # xs) = m" by (simp add: m_def b'_def)
  have start: "snd b' \<le> snd m" unfolding m_def by (rule max_item_ge_start)
  show ?case
  proof (cases "snd b < snd x")
    case True
    then have b': "b' = x" by (simp add: b'_def)
    have "snd b < snd m" using True start b' by simp
    moreover have "b # x # xs = (b # pre) @ m # post" using split b' by simp
    ultimately have "b # x # xs = (b # pre) @ m # post \<and> (\<forall>y \<in> set (b # pre). snd y < snd m)"
      using less by simp
    then show ?thesis unfolding m by blast
  next
    case False
    then have b': "b' = b" by (simp add: b'_def)
    show ?thesis
    proof (cases pre)
      case Nil
      then have "b = m" using split b' by simp
      then have "b # x # xs = [] @ m # (x # xs) \<and> (\<forall>y \<in> set []. snd y < snd m)" by simp
      then show ?thesis unfolding m by blast
    next
      case (Cons p pre')
      then have p: "p = b" and xs: "xs = pre' @ m # post" using split b' by simp_all
      have "snd b < snd m" using less Cons p by simp
      moreover have "snd x \<le> snd b" using False by simp
      ultimately have "\<forall>y \<in> set (b # x # pre'). snd y < snd m" using less Cons by auto
      moreover have "b # x # xs = (b # x # pre') @ m # post" using xs by simp
      ultimately show ?thesis unfolding m by blast
    qed
  qed
qed

lemma tally_incr_keys:
  "map fst (tally_incr k t) = (if k \<in> fst ` set t then map fst t else map fst t @ [k])"
  by (induction t) force+

text \<open>The association list reads as the dictionary does: a vote adds one to its key.\<close>

lemma tally_incr_map_of:
  "map_of (tally_incr k t) =
     (map_of t)(k \<mapsto> (case map_of t k of None \<Rightarrow> 1 | Some n \<Rightarrow> n + 1))"
  by (induction t) (auto simp: fun_eq_iff)

lemma tally_incr_distinct: "distinct (map fst t) \<Longrightarrow> distinct (map fst (tally_incr k t))"
  by (simp add: tally_incr_keys)

lemma tally_incr_not_empty: "tally_incr k t \<noteq> []"
  by (cases t) (auto split: if_splits)

lemma button_truthy: "CMD_INDEX_TO_BUTTON i = Some b \<Longrightarrow> truthy (Some b)"
  by (auto simp: CMD_INDEX_TO_BUTTON_def split: if_splits)

lemma vote_aggregator_tick_nonempty:
  assumes "tally s = x # xs" and "max_item x xs = (idx, c)"
  shows "vote_aggregator_tick s =
    Inr (s\<lparr>tally := [], actions_q := actions_q s @
      (case CMD_INDEX_TO_BUTTON idx of None \<Rightarrow> [] | Some b \<Rightarrow> [b])\<rparr>)"
proof (cases "CMD_INDEX_TO_BUTTON idx")
  case None
  then show ?thesis using assms by (simp add: vote_aggregator_tick_def)
next
  case (Some b)
  then have "b \<noteq> []" using button_truthy by fastforce
  then show ?thesis using assms Some by (simp add: vote_aggregator_tick_def)
qed

text \<open>The boundary of the spec: 1000 votes for index 0 beat 999 for index 1, whatever the order.\<close>

lemma majority_example:
  "vote_aggregator_tick
     \<lparr>last_block = 100, tally = [(1, 999), (0, 1000)], actions_q = [], requests = []\<rparr> =
   Inr \<lparr>last_block = 100, tally = [], actions_q = [''up''], requests = []\<rparr>"
  by (simp add: vote_aggregator_tick_def CMD_INDEX_TO_BUTTON_def)

section \<open>Properties of the listeners\<close>

lemma cmd_index_unmapped: "i < 0 \<or> 7 < i \<Longrightarrow> CMD_INDEX_TO_BUTTON i = None"
  by (auto simp: CMD_INDEX_TO_BUTTON_def)

lemma cmd_index_mapped: "CMD_INDEX_TO_BUTTON i = Some b \<Longrightarrow> 0 \<le> i \<and> i \<le> 7"
  by (auto simp: CMD_INDEX_TO_BUTTON_def split: if_splits)

lemma process_logs_Chaos_step:
  "process_logs_Chaos (MoveLog a # logs) q =
     process_logs_Chaos logs
       (q @ (case CMD_INDEX_TO_BUTTON (cmd a) of None \<Rightarrow> [] | Some b \<Rightarrow> [b]))"
proof (cases "CMD_INDEX_TO_BUTTON (cmd a)")
  case None
  then show ?thesis by simp
next
  case (Some b)
  then have "b \<noteq> []" using button_truthy by fastforce
  then show ?thesis using Some by simp
qed

lemma process_logs_TESTING_eq: "process_logs_TESTING logs q = process_logs_Chaos logs q"
  by (induction logs arbitrary: q) (auto simp: Let_def split: sum.splits option.splits)

lemma process_logs_Chaos_decodable:
  "process_logs_Chaos (map MoveLog evts) q =
     (None, q @ List.map_filter CMD_INDEX_TO_BUTTON (map cmd evts))"
proof (induction evts arbitrary: q)
  case Nil
  show ?case by (simp add: map_filter_simps)
next
  case (Cons a evts)
  have "process_logs_Chaos (map MoveLog (a # evts)) q =
        process_logs_Chaos (map MoveLog evts)
          (q @ (case CMD_INDEX_TO_BUTTON (cmd a) of None \<Rightarrow> [] | Some b \<Rightarrow> [b]))"
    using process_logs_Chaos_step [of a "map MoveLog evts" q] by simp
  also have "\<dots> = (None, (q @ (case CMD_INDEX_TO_BUTTON (cmd a) of None \<Rightarrow> [] | Some b \<Rightarrow> [b]))
                        @ List.map_filter CMD_INDEX_TO_BUTTON (map cmd evts))"
    by (rule Cons.IH)
  finally show ?case by (simp add: map_filter_simps split: option.splits)
qed

lemma process_logs_Chaos_undecodable:
  "process_logs_Chaos (map MoveLog evts @ Undecodable # post) q =
     (Some DecodeError, q @ List.map_filter CMD_INDEX_TO_BUTTON (map cmd evts))"
proof (induction evts arbitrary: q)
  case Nil
  show ?case by (simp add: map_filter_simps)
next
  case (Cons a evts)
  have "process_logs_Chaos (map MoveLog (a # evts) @ Undecodable # post) q =
        process_logs_Chaos (map MoveLog evts @ Undecodable # post)
          (q @ (case CMD_INDEX_TO_BUTTON (cmd a) of None \<Rightarrow> [] | Some b \<Rightarrow> [b]))"
    using process_logs_Chaos_step [of a "map MoveLog evts @ Undecodable # post" q] by simp
  also have "\<dots> = (Some DecodeError,
      (q @ (case CMD_INDEX_TO_BUTTON (cmd a) of None \<Rightarrow> [] | Some b \<Rightarrow> [b]))
        @ List.map_filter CMD_INDEX_TO_BUTTON (map cmd evts))"
    by (rule Cons.IH)
  finally show ?case by (simp add: map_filter_simps split: option.splits)
qed

lemma decoded_prefix_exists:
  "\<exists>evts rest. logs = map MoveLog evts @ rest \<and> (rest = [] \<or> (\<exists>post. rest = Undecodable # post))"
proof (induction logs)
  case Nil
  have "[] = map MoveLog [] @ [] \<and> ([] = [] \<or> (\<exists>post. [] = Undecodable # post))" by simp
  then show ?case by blast
next
  case (Cons log logs)
  show ?case
  proof (cases log)
    case Undecodable
    then have "log # logs = map MoveLog [] @ (Undecodable # logs)" by simp
    then show ?thesis by blast
  next
    case (MoveLog a)
    obtain evts rest where "logs = map MoveLog evts @ rest"
      and r: "rest = [] \<or> (\<exists>post. rest = Undecodable # post)"
      using Cons.IH by blast
    then have "log # logs = map MoveLog (a # evts) @ rest" using MoveLog by simp
    then show ?thesis using r by blast
  qed
qed

lemma process_logs_decodable:
  "process_logs (map MoveLog evts) t = (None, foldl (\<lambda>t a. tally_incr (cmd a) t) t evts)"
  by (induction evts arbitrary: t) simp_all

lemma process_logs_undecodable:
  "process_logs (map MoveLog pre @ Undecodable # post) t =
     (Some DecodeError, foldl (\<lambda>t a. tally_incr (cmd a) t) t pre)"
  by (induction pre arbitrary: t) simp_all

lemma chain_listener_cycle_failed:
  "fst (chain_listener_cycle w3 s) \<noteq> None \<Longrightarrow>
   last_block (snd (chain_listener_cycle w3 s)) = last_block s"
  by (auto simp: chain_listener_cycle_def Let_def split: sum.splits prod.splits option.splits if_splits)

lemma chain_listener_cycle_advanced:
  "fst (chain_listener_cycle w3 s) = None \<Longrightarrow> block_number w3 = Inr head \<Longrightarrow>
   last_block s \<le> head \<Longrightarrow> last_block (snd (chain_listener_cycle w3 s)) = head + 1"
  by (auto simp: chain_listener_cycle_def Let_def split: sum.splits prod.splits option.splits if_splits)

lemma chain_listener_cycle_requests:
  "block_number w3 = Inr head \<Longrightarrow> last_block s \<le> head \<Longrightarrow>
   requests (snd (chain_listener_cycle w3 s)) = requests s @ [(last_block s, head)]"
  by (auto simp: chain_listener_cycle_def Let_def split: sum.splits prod.splits option.splits)

lemma chain_listener_cycle_mono: "last_block s \<le> last_block (snd (chain_listener_cycle w3 s))"
  by (auto simp: chain_listener_cycle_def Let_def split: sum.splits prod.splits option.splits)

lemma chain_listener_cycles_mono: "last_block s \<le> last_block (chain_listener_cycles ws s)"
proof (induction ws arbitrary: s)
  case Nil
  show ?case by simp
next
  case (Cons w ws)
  have "last_block s \<le> last_block (snd (chain_listener_cycle w s))"
    by (rule chain_listener_cycle_mono)
  also have "\<dots> \<le> last_block (chain_listener_cycles ws (snd (chain_listener_cycle w s)))"
    by (rule Cons.IH)
  finally show ?case by simp
qed

lemma chain_listener_cursor:
  assumes "chain_listener w0 ws s = Inr s'" and "block_number w0 = Inr b"
  shows "b \<le> last_block s'"
proof -
  have "s' = chain_listener_cycles ws (s\<lparr>last_block := b\<rparr>)"
    using assms by (simp add: chain_listener_def)
  then show ?thesis using chain_listener_cycles_mono [of "s\<lparr>last_block := b\<rparr>" ws] by simp
qed

lemma vote_aggregator_tick_total: "\<exists>s'. vote_aggregator_tick s = Inr s'"
proof (cases "tally s")
  case Nil
  then show ?thesis by (simp add: vote_aggregator_tick_def)
next
  case (Cons x xs)
  obtain idx c where "max_item x xs = (idx, c)" by (cases "max_item x xs") auto
  then show ?thesis using vote_aggregator_tick_nonempty [OF Cons] by blast
qed

lemma vote_aggregator_tick_queue:
  assumes "vote_aggregator_tick s = Inr s'"
  shows "set (actions_q s') \<subseteq> set (actions_q s) \<union> ran CMD_INDEX_TO_BUTTON"
proof (cases "tally s")
  case Nil
  then show ?thesis using assms by (auto simp: vote_aggregator_tick_def)
next
  case (Cons x xs)
  obtain idx c where m: "max_item x xs = (idx, c)" by (cases "max_item x xs") auto
  show ?thesis using vote_aggregator_tick_nonempty [OF Cons m] assms
    by (auto simp: ran_def split: option.splits)
qed

lemma windowed_step_queue:
  "windowed_step s s' \<Longrightarrow> set (actions_q s') \<subseteq> set (actions_q s) \<union> ran CMD_INDEX_TO_BUTTON"
proof (induction rule: windowed_step.induct)
  case (aggregator_tick s s')
  then show ?case by (rule vote_aggregator_tick_queue)
qed auto

lemma process_logs_reachable:
  "windowed_reachable s \<Longrightarrow> windowed_reachable (s\<lparr>tally := snd (process_logs logs (tally s))\<rparr>)"
proof (induction logs arbitrary: s)
  case Nil
  then show ?case by simp
next
  case (Cons log logs)
  show ?case
  proof (cases log)
    case Undecodable
    then show ?thesis using Cons.prems by simp
  next
    case (MoveLog a)
    let ?s1 = "s\<lparr>tally := tally_incr (cmd a) (tally s)\<rparr>"
    have "windowed_reachable ?s1"
      using Cons.prems windowed_step.listener_vote by (rule windowed_reachable.step)
    then have "windowed_reachable (?s1\<lparr>tally := snd (process_logs logs (tally ?s1))\<rparr>)"
      by (rule Cons.IH)
    then show ?thesis using MoveLog by simp
  qed
qed

lemma cursor_reachable:
  assumes "windowed_reachable s"
  shows "windowed_reachable (s\<lparr>last_block := b, requests := r\<rparr>)"
  using assms windowed_step.listener_cursor by (rule windowed_reachable.step)

lemma chain_listener_cycle_reachable:
  assumes "windowed_reachable s"
  shows "windowed_reachable (snd (chain_listener_cycle w3 s))"
proof (cases "block_number w3")
  case (Inl e)
  then show ?thesis using assms by (simp add: chain_listener_cycle_def)
next
  case (Inr latest)
  show ?thesis
  proof (cases "last_block s \<le> latest")
    case False
    then show ?thesis using assms Inr by (simp add: chain_listener_cycle_def)
  next
    case True
    let ?s1 = "s\<lparr>last_block := last_block s, requests := requests s @ [(last_block s, latest)]\<rparr>"
    have r1: "windowed_reachable ?s1" using assms by (rule cursor_reachable)
    show ?thesis
    proof (cases "get_logs w3 (last_block s) latest")
      case (Inl e)
      then show ?thesis using r1 Inr True by (simp add: chain_listener_cycle_def)
    next
      case logs: (Inr logs)
      let ?s2 = "?s1\<lparr>tally := snd (process_logs logs (tally ?s1))\<rparr>"
      have r2: "windowed_reachable ?s2" using r1 by (rule process_logs_reachable)
      have r3: "windowed_reachable (?s2\<lparr>last_block := latest + 1, requests := requests ?s2\<rparr>)"
        using r2 by (rule cursor_reachable)
      obtain eo t where pl: "process_logs logs (tally s) = (eo, t)"
        by (cases "process_logs logs (tally s)") auto
      have pl': "snd (process_logs logs (tally ?s1)) = t" using pl by simp
      show ?thesis
      proof (cases eo)
        case None
        have "snd (chain_listener_cycle w3 s) =
            ?s2\<lparr>last_block := latest + 1, requests := requests ?s2\<rparr>"
          using None Inr True logs pl by (intro state.equality) (simp_all add: chain_listener_cycle_def)
        then show ?thesis using r3 by simp
      next
        case (Some e)
        have "snd (chain_listener_cycle w3 s) = ?s2"
          using Some Inr True logs pl by (intro state.equality) (simp_all add: chain_listener_cycle_def)
        then show ?thesis using r2 by simp
      qed
    qed
  qed
qed

lemma init_state_reachable: "windowed_reachable init_state"
  by (rule windowed_reachable.start) (simp_all add: init_state_def)

lemma after_scenario_tick_eq:
  "vote_aggregator_tick (snd (chain_listener_cycle (rpc_logs 100 scenario_logs) init_state)) =
     Inr \<lparr>last_block = 101, tally = [], actions_q = [''left''], requests = [(100, 100)]\<rparr>"
  by (simp add: vote_aggregator_tick_def chain_listener_cycle_def rpc_logs_def init_state_def
      scenario_logs_def vote_def vote_args_def CMD_INDEX_TO_BUTTON_def)

section \<open>Properties of the applicators\<close>

lemma tick_simps:
  "fst (tick p) = tick_result p (ticks p)"
  "ops (snd (tick p)) = ops p @ [Tick]"
  "ticks (snd (tick p)) = Suc (ticks p)"
  "tick_result (snd (tick p)) = tick_result p"
  by (simp_all add: tick_def)

lemma button_simps:
  "ops (button btn v p) = ops p @ [Button btn v]"
  "ticks (button btn v p) = ticks p"
  "tick_result (button btn v p) = tick_result p"
  by (simp_all add: button_def)

lemma ops_tick_times: "ops (tick_times n p) = ops p @ replicate n Tick"
  by (induction n arbitrary: p) (simp_all add: tick_simps replicate_app_Cons_same)

lemma ticks_tick_times: "ticks (tick_times n p) = ticks p + n"
  by (induction n arbitrary: p) (simp_all add: tick_simps)

lemma tick_result_tick_times: "tick_result (tick_times n p) = tick_result p"
  by (induction n arbitrary: p) (simp_all add: tick_simps)

lemma main_iteration_TESTING_action:
  "main_iteration_TESTING (btn # q) p =
     (if tick_result p (ticks p)
      then (if tick_result p (Suc (ticks p)) then Looping else Returned, q,
            snd (tick (button btn False (snd (tick (button btn True p))))))
      else (Returned, q, snd (tick (button btn True p))))"
  by (simp add: main_iteration_TESTING_def tick_def button_def)

lemma warmup_TESTING_closed:
  "\<not> tick_result p (ticks p) \<Longrightarrow> 0 < n \<Longrightarrow> warmup_TESTING n p = (Returned, snd (tick p))"
  by (cases n) (simp_all add: tick_def)

lemma stops_refl: "stops_at_signal p Looping p"
  by (simp add: stops_at_signal_def)

lemma stops_trans:
  "stops_at_signal p Looping p1 \<Longrightarrow> stops_at_signal p1 out p2 \<Longrightarrow> stops_at_signal p out p2"
  by (cases out) (auto simp: stops_at_signal_def)

lemma stops_button: "stops_at_signal p Looping (button btn v p)"
  by (simp add: stops_at_signal_def button_simps)

lemma stops_tick:
  "stops_at_signal p (if fst (tick p) = False then Returned else Looping) (snd (tick p))"
  by (auto simp: stops_at_signal_def tick_simps less_Suc_eq)

lemma warmup_TESTING_stops: "stops_at_signal p (fst (warmup_TESTING n p)) (snd (warmup_TESTING n p))"
proof (induction n arbitrary: p)
  case 0
  show ?case by (simp add: stops_refl)
next
  case (Suc n)
  show ?case
  proof (cases "fst (tick p) = False")
    case True
    then show ?thesis using stops_tick [of p] by (simp add: case_prod_beta)
  next
    case False
    then have "stops_at_signal p Looping (snd (tick p))" using stops_tick [of p] by simp
    then have "stops_at_signal p (fst (warmup_TESTING n (snd (tick p))))
        (snd (warmup_TESTING n (snd (tick p))))"
      using Suc.IH by (rule stops_trans)
    then show ?thesis using False by (simp add: case_prod_beta)
  qed
qed

lemma main_iteration_TESTING_stops:
  "stops_at_signal p (fst (main_iteration_TESTING q p)) (snd (snd (main_iteration_TESTING q p)))"
proof (cases q)
  case Nil
  then show ?thesis using stops_tick [of p]
    by (auto simp: main_iteration_TESTING_def case_prod_beta split: if_splits)
next
  case (Cons btn q')
  let ?p1 = "button btn True p"
  have s1: "stops_at_signal p (if fst (tick ?p1) = False then Returned else Looping) (snd (tick ?p1))"
    using stops_button stops_tick by (rule stops_trans)
  show ?thesis
  proof (cases "fst (tick ?p1) = False")
    case True
    then show ?thesis using s1 Cons
      by (auto simp: main_iteration_TESTING_def case_prod_beta split: if_splits)
  next
    case False
    let ?p2 = "button btn False (snd (tick ?p1))"
    have "stops_at_signal p Looping (snd (tick ?p1))" using s1 False by simp
    then have "stops_at_signal p Looping ?p2" using stops_button by (rule stops_trans)
    then have "stops_at_signal p (if fst (tick ?p2) = False then Returned else Looping) (snd (tick ?p2))"
      using stops_tick by (rule stops_trans)
    then show ?thesis using False Cons
      by (auto simp: main_iteration_TESTING_def case_prod_beta split: if_splits)
  qed
qed

lemma main_loop_TESTING_stops:
  "stops_at_signal p (fst (main_loop_TESTING arrivals q p))
     (snd (snd (main_loop_TESTING arrivals q p)))"
proof (induction arrivals arbitrary: q p)
  case Nil
  show ?case by (simp add: stops_refl)
next
  case (Cons arr rest)
  obtain out q' p' where it: "main_iteration_TESTING (q @ arr) p = (out, q', p')"
    by (cases "main_iteration_TESTING (q @ arr) p") auto
  have s: "stops_at_signal p out p'" using main_iteration_TESTING_stops [of p "q @ arr"] it by simp
  show ?case
  proof (cases out)
    case Returned
    then show ?thesis using s it by simp
  next
    case Looping
    then have "stops_at_signal p (fst (main_loop_TESTING rest q' p'))
        (snd (snd (main_loop_TESTING rest q' p')))"
      using s Cons.IH [of p' q'] stops_trans by blast
    then show ?thesis using Looping it by simp
  qed
qed

lemma main_TESTING_stops:
  "stops_at_signal p (fst (main_TESTING arrivals p)) (snd (snd (main_TESTING arrivals p)))"
proof -
  obtain out p' where w: "warmup_TESTING 240 p = (out, p')"
    by (cases "warmup_TESTING 240 p") auto
  have s: "stops_at_signal p out p'" using warmup_TESTING_stops [of p 240] w by simp
  show ?thesis
  proof (cases out)
    case Returned
    then show ?thesis using s w by (simp add: main_TESTING_def PRINT_ONLY_def)
  next
    case Looping
    then have "stops_at_signal p (fst (main_loop_TESTING arrivals [] p'))
        (snd (snd (main_loop_TESTING arrivals [] p')))"
      using s main_loop_TESTING_stops [of p' arrivals "[]"] stops_trans by blast
    then show ?thesis using Looping w by (simp add: main_TESTING_def PRINT_ONLY_def)
  qed
qed

lemma main_TESTING_signal_is_last:
  assumes "main_TESTING arrivals p = (out, q, p')"
    and "ticks p \<le> k" and "k < ticks p'" and "\<not> tick_result p k"
  shows "out = Returned \<and> ticks p' = Suc k \<and> last (ops p') = Tick"
proof -
  have s: "stops_at_signal p out p'" using main_TESTING_stops [of p arrivals] assms(1) by simp
  show ?thesis
  proof (cases out)
    case Looping
    then show ?thesis using s assms(2-4) by (auto simp: stops_at_signal_def)
  next
    case Returned
    then have all: "\<forall>j \<in> {ticks p ..< ticks p' - 1}. tick_result p j"
      and l: "last (ops p') = Tick" using s by (simp_all add: stops_at_signal_def)
    have "\<not> k < ticks p' - 1" using all assms(2,4) by auto
    then have "ticks p' = Suc k" using assms(3) by simp
    then show ?thesis using Returned l by simp
  qed
qed

section \<open>The claims\<close>

text \<open>
  C1. At an aggregation tick on a tally that is not empty, the aggregator puts at most
  one action on the queue. The index it maps is an entry \<open>(idx, c)\<close> of the tally whose
  count \<open>c\<close> is at least every count of the tally, and it is the first such entry in the
  tally's order (every entry before it has a count strictly below \<open>c\<close>); the tally's
  order is the order in which the indices were first voted for (\<open>tally_incr_keys\<close>).
\<close>

theorem aggregator_emits_first_maximum:
  assumes "tally s \<noteq> []"
  shows "\<exists>pre idx c post emitted.
           tally s = pre @ (idx, c) # post \<and>
           (\<forall>(k, n) \<in> set pre. n < c) \<and>
           (\<forall>(k, n) \<in> set (tally s). n \<le> c) \<and>
           emitted = (case CMD_INDEX_TO_BUTTON idx of None \<Rightarrow> [] | Some b \<Rightarrow> [b]) \<and>
           length emitted \<le> 1 \<and>
           vote_aggregator_tick s = Inr (s\<lparr>tally := [], actions_q := actions_q s @ emitted\<rparr>)"
proof -
  obtain x xs where t: "tally s = x # xs" using assms by (cases "tally s") auto
  obtain idx c where m: "max_item x xs = (idx, c)" by (cases "max_item x xs") auto
  obtain pre post where split: "x # xs = pre @ (idx, c) # post"
    and less: "\<forall>y \<in> set pre. snd y < c"
    using max_item_first [of x xs] m by auto
  have ge: "\<forall>y \<in> set (tally s). snd y \<le> c"
    using max_item_ge [of _ x xs] m t by auto
  define emitted where "emitted = (case CMD_INDEX_TO_BUTTON idx of None \<Rightarrow> [] | Some b \<Rightarrow> [b])"
  have len: "length emitted \<le> 1" by (simp add: emitted_def split: option.splits)
  have run: "vote_aggregator_tick s = Inr (s\<lparr>tally := [], actions_q := actions_q s @ emitted\<rparr>)"
    unfolding emitted_def using t m by (rule vote_aggregator_tick_nonempty)
  have "tally s = pre @ (idx, c) # post" using t split by simp
  moreover have "\<forall>(k, n) \<in> set pre. n < c" using less by auto
  moreover have "\<forall>(k, n) \<in> set (tally s). n \<le> c" using ge by auto
  ultimately show ?thesis using emitted_def len run by blast
qed

text \<open>The tie of the spec: 500 votes each for the indices 0 and 1, index 0 voted first.\<close>

theorem aggregator_emits_first_maximum_witness:
  "tally tie_state \<noteq> [] \<and>
   (\<exists>pre idx c post emitted.
      tally tie_state = pre @ (idx, c) # post \<and>
      (\<forall>(k, n) \<in> set pre. n < c) \<and>
      (\<forall>(k, n) \<in> set (tally tie_state). n \<le> c) \<and>
      emitted = (case CMD_INDEX_TO_BUTTON idx of None \<Rightarrow> [] | Some b \<Rightarrow> [b]) \<and>
      length emitted \<le> 1 \<and>
      vote_aggregator_tick tie_state =
        Inr (tie_state\<lparr>tally := [], actions_q := actions_q tie_state @ emitted\<rparr>))"
proof -
  have h: "tally tie_state \<noteq> []" by (simp add: tie_state_def)
  show ?thesis using h aggregator_emits_first_maximum [OF h] by blast
qed

lemma tie_goes_to_first:
  "vote_aggregator_tick tie_state = Inr (tie_state\<lparr>tally := [], actions_q := [''up'']\<rparr>)"
  by (simp add: vote_aggregator_tick_def tie_state_def CMD_INDEX_TO_BUTTON_def)

text \<open>
  C2. The mapping sends 0 to 7 to up, down, left, right, a, b, start, select. An
  integer \<open>i\<close> outside 0 to 7 has no button, and a vote for it raises nothing in any
  variant: the chaos and the minimal listener go on to the next log with the queue
  as it was, the windowed listener counts it and goes on, and the aggregator, when
  \<open>i\<close> wins the window, clears the tally and puts nothing on the queue.
\<close>

theorem cmd_index_to_button_total:
  "CMD_INDEX_TO_BUTTON 0 = Some ''up'' \<and> CMD_INDEX_TO_BUTTON 1 = Some ''down'' \<and>
   CMD_INDEX_TO_BUTTON 2 = Some ''left'' \<and> CMD_INDEX_TO_BUTTON 3 = Some ''right'' \<and>
   CMD_INDEX_TO_BUTTON 4 = Some ''a'' \<and> CMD_INDEX_TO_BUTTON 5 = Some ''b'' \<and>
   CMD_INDEX_TO_BUTTON 6 = Some ''start'' \<and> CMD_INDEX_TO_BUTTON 7 = Some ''select'' \<and>
   (i < 0 \<or> 7 < i \<longrightarrow>
      CMD_INDEX_TO_BUTTON i = None \<and>
      (cmd a = i \<longrightarrow>
         process_logs_Chaos (MoveLog a # logs) q = process_logs_Chaos logs q \<and>
         process_logs_TESTING (MoveLog a # logs) q = process_logs_TESTING logs q \<and>
         process_logs (MoveLog a # logs) t = process_logs logs (tally_incr i t)) \<and>
      (most_common_1 (tally s) = [(i, c)] \<longrightarrow>
         vote_aggregator_tick s = Inr (s\<lparr>tally := []\<rparr>)))"
proof -
  have mapped:
    "CMD_INDEX_TO_BUTTON 0 = Some ''up'' \<and> CMD_INDEX_TO_BUTTON 1 = Some ''down'' \<and>
     CMD_INDEX_TO_BUTTON 2 = Some ''left'' \<and> CMD_INDEX_TO_BUTTON 3 = Some ''right'' \<and>
     CMD_INDEX_TO_BUTTON 4 = Some ''a'' \<and> CMD_INDEX_TO_BUTTON 5 = Some ''b'' \<and>
     CMD_INDEX_TO_BUTTON 6 = Some ''start'' \<and> CMD_INDEX_TO_BUTTON 7 = Some ''select''"
    by (simp add: CMD_INDEX_TO_BUTTON_def)
  have unmapped: "CMD_INDEX_TO_BUTTON i = None \<and>
      (cmd a = i \<longrightarrow>
         process_logs_Chaos (MoveLog a # logs) q = process_logs_Chaos logs q \<and>
         process_logs_TESTING (MoveLog a # logs) q = process_logs_TESTING logs q \<and>
         process_logs (MoveLog a # logs) t = process_logs logs (tally_incr i t)) \<and>
      (most_common_1 (tally s) = [(i, c)] \<longrightarrow>
         vote_aggregator_tick s = Inr (s\<lparr>tally := []\<rparr>))" if out: "i < 0 \<or> 7 < i"
  proof -
    have none: "CMD_INDEX_TO_BUTTON i = None" using out by (rule cmd_index_unmapped)
    have drop: "process_logs_Chaos (MoveLog a # logs) q = process_logs_Chaos logs q \<and>
         process_logs_TESTING (MoveLog a # logs) q = process_logs_TESTING logs q \<and>
         process_logs (MoveLog a # logs) t = process_logs logs (tally_incr i t)" if "cmd a = i"
      using that none by simp
    have tick: "vote_aggregator_tick s = Inr (s\<lparr>tally := []\<rparr>)"
      if win: "most_common_1 (tally s) = [(i, c)]"
    proof -
      obtain x xs where t: "tally s = x # xs" and m: "max_item x xs = (i, c)"
        using win by (cases "tally s") auto
      show ?thesis using vote_aggregator_tick_nonempty [OF t m] none by simp
    qed
    show ?thesis using none drop tick by blast
  qed
  show ?thesis using mapped unmapped by blast
qed

theorem cmd_index_to_button_total_witness:
  "CMD_INDEX_TO_BUTTON 0 = Some ''up'' \<and> CMD_INDEX_TO_BUTTON 1 = Some ''down'' \<and>
   CMD_INDEX_TO_BUTTON 2 = Some ''left'' \<and> CMD_INDEX_TO_BUTTON 3 = Some ''right'' \<and>
   CMD_INDEX_TO_BUTTON 4 = Some ''a'' \<and> CMD_INDEX_TO_BUTTON 5 = Some ''b'' \<and>
   CMD_INDEX_TO_BUTTON 6 = Some ''start'' \<and> CMD_INDEX_TO_BUTTON 7 = Some ''select'' \<and>
   ((9::int) < 0 \<or> (7::int) < 9) \<and>
   CMD_INDEX_TO_BUTTON 9 = None \<and>
   process_logs_Chaos [vote 9, vote 4] [] = (None, [''a'']) \<and>
   process_logs_TESTING [vote 9, vote 4] [] = (None, [''a'']) \<and>
   process_logs [vote 9, vote 4] [] = (None, [(9, 1), (4, 1)]) \<and>
   most_common_1 (tally unmapped_winner_state) = [(9, 3)] \<and>
   vote_aggregator_tick unmapped_winner_state = Inr (unmapped_winner_state\<lparr>tally := []\<rparr>)"
proof -
  have w: "most_common_1 (tally unmapped_winner_state) = [(9, 3)]"
    by (simp add: unmapped_winner_state_def)
  have a: "cmd (vote_args 9) = 9" by (simp add: vote_args_def)
  show ?thesis
    using w a cmd_index_to_button_total
      [of 9 "vote_args 9" "[vote 4]" "[]" "[]" unmapped_winner_state 3]
    by (simp add: vote_def vote_args_def CMD_INDEX_TO_BUTTON_def)
qed

text \<open>
  C3. A cycle of the listener that ends in the \<^verbatim>\<open>except\<close> branch leaves
  \<^verbatim>\<open>last_block\<close> as it was, and the cycle after it, when the head is at or past the
  cursor, asks for the logs from that same cursor. A cycle that ends without an error,
  with the head at or past the cursor, sets the cursor to the head plus one. The cursor
  never decreases, over one cycle or over any number of them.
\<close>

theorem listener_cursor:
  "(fst (chain_listener_cycle w3 s) \<noteq> None \<longrightarrow>
      last_block (snd (chain_listener_cycle w3 s)) = last_block s \<and>
      (block_number w3' = Inr head' \<and> last_block s \<le> head' \<longrightarrow>
         requests (snd (chain_listener_cycle w3' (snd (chain_listener_cycle w3 s)))) =
           requests (snd (chain_listener_cycle w3 s)) @ [(last_block s, head')])) \<and>
   (fst (chain_listener_cycle w3 s) = None \<and> block_number w3 = Inr head \<and> last_block s \<le> head \<longrightarrow>
      last_block (snd (chain_listener_cycle w3 s)) = head + 1) \<and>
   last_block s \<le> last_block (snd (chain_listener_cycle w3 s)) \<and>
   last_block s \<le> last_block (chain_listener_cycles ws s)"
proof -
  have failed: "last_block (snd (chain_listener_cycle w3 s)) = last_block s"
    if "fst (chain_listener_cycle w3 s) \<noteq> None"
    using that by (rule chain_listener_cycle_failed)
  have retry: "requests (snd (chain_listener_cycle w3' (snd (chain_listener_cycle w3 s)))) =
           requests (snd (chain_listener_cycle w3 s)) @ [(last_block s, head')]"
    if "fst (chain_listener_cycle w3 s) \<noteq> None" and "block_number w3' = Inr head'"
      and "last_block s \<le> head'"
    using chain_listener_cycle_requests [of w3' head' "snd (chain_listener_cycle w3 s)"]
      failed that by simp
  have ok: "last_block (snd (chain_listener_cycle w3 s)) = head + 1"
    if "fst (chain_listener_cycle w3 s) = None" and "block_number w3 = Inr head"
      and "last_block s \<le> head"
    using that by (rule chain_listener_cycle_advanced)
  show ?thesis
    using failed retry ok chain_listener_cycle_mono chain_listener_cycles_mono by blast
qed

theorem listener_cursor_witness:
  "fst (chain_listener_cycle (rpc_fetch_error 105) init_state) \<noteq> None \<and>
   last_block (snd (chain_listener_cycle (rpc_fetch_error 105) init_state)) = 100 \<and>
   block_number (rpc_logs 107 scenario_logs) = Inr 107 \<and>
   last_block init_state \<le> 107 \<and>
   requests (snd (chain_listener_cycle (rpc_logs 107 scenario_logs)
       (snd (chain_listener_cycle (rpc_fetch_error 105) init_state)))) = [(100, 105), (100, 107)] \<and>
   fst (chain_listener_cycle (rpc_logs 107 scenario_logs) init_state) = None \<and>
   last_block (snd (chain_listener_cycle (rpc_logs 107 scenario_logs) init_state)) = 108 \<and>
   last_block init_state \<le>
     last_block (chain_listener_cycles [rpc_fetch_error 105, rpc_logs 107 scenario_logs] init_state)"
proof -
  have e: "chain_listener_cycle (rpc_fetch_error 105) init_state =
      (Some TransportError, init_state\<lparr>requests := [(100, 105)]\<rparr>)"
    by (simp add: chain_listener_cycle_def rpc_fetch_error_def init_state_def)
  have k: "fst (chain_listener_cycle (rpc_logs 107 scenario_logs) init_state) = None"
    by (simp add: chain_listener_cycle_def rpc_logs_def init_state_def scenario_logs_def vote_def vote_args_def)
  have b: "block_number (rpc_logs 107 scenario_logs) = Inr 107" by (simp add: rpc_logs_def)
  have l: "last_block init_state = 100" by (simp add: init_state_def)
  have f: "fst (chain_listener_cycle (rpc_fetch_error 105) init_state) \<noteq> None" using e by simp
  have a1: "last_block (snd (chain_listener_cycle (rpc_fetch_error 105) init_state)) = 100"
    and a2: "requests (snd (chain_listener_cycle (rpc_logs 107 scenario_logs)
       (snd (chain_listener_cycle (rpc_fetch_error 105) init_state)))) = [(100, 105), (100, 107)]"
    and a3: "last_block init_state \<le>
     last_block (chain_listener_cycles [rpc_fetch_error 105, rpc_logs 107 scenario_logs] init_state)"
    using listener_cursor [of "rpc_fetch_error 105" init_state "rpc_logs 107 scenario_logs" 107 105
        "[rpc_fetch_error 105, rpc_logs 107 scenario_logs]"] f b l e
    by simp_all
  have a4: "last_block (snd (chain_listener_cycle (rpc_logs 107 scenario_logs) init_state)) = 108"
    using listener_cursor [of "rpc_logs 107 scenario_logs" init_state "rpc_logs 107 scenario_logs" 107 107 "[]"]
      k b l by simp
  show ?thesis using f a1 b l a2 k a4 a3 by simp
qed

text \<open>
  C4, as the code has it. A log that does not decode abandons the cycle at that log:
  the votes of the logs before it are in the tally and stay there, the logs after it
  are not looked at, the cursor is not advanced, and the error is caught by the loop.
\<close>

theorem undecodable_log_abandons_cycle:
  assumes "block_number w3 = Inr head" and "last_block s \<le> head"
    and "get_logs w3 (last_block s) head = Inr (map MoveLog pre @ Undecodable # post)"
  shows "chain_listener_cycle w3 s =
    (Some DecodeError,
     s\<lparr>requests := requests s @ [(last_block s, head)],
       tally := foldl (\<lambda>t a. tally_incr (cmd a) t) (tally s) pre\<rparr>)"
  using assms by (simp add: chain_listener_cycle_def process_logs_undecodable)

theorem undecodable_log_abandons_cycle_witness:
  "block_number (rpc_logs 100 bad_batch) = Inr 100 \<and> last_block init_state \<le> 100 \<and>
   get_logs (rpc_logs 100 bad_batch) (last_block init_state) 100 =
     Inr (map MoveLog [vote_args 2] @ Undecodable # [vote 5]) \<and>
   chain_listener_cycle (rpc_logs 100 bad_batch) init_state =
     (Some DecodeError,
      \<lparr>last_block = 100, tally = [(2, 1)], actions_q = [], requests = [(100, 100)]\<rparr>)"
proof -
  have b: "block_number (rpc_logs 100 bad_batch) = Inr 100" by (simp add: rpc_logs_def)
  have l: "last_block init_state \<le> 100" by (simp add: init_state_def)
  have g: "get_logs (rpc_logs 100 bad_batch) (last_block init_state) 100 =
     Inr (map MoveLog [vote_args 2] @ Undecodable # [vote 5])"
    by (simp add: rpc_logs_def bad_batch_def vote_def)
  show ?thesis using b l g undecodable_log_abandons_cycle [OF b l g]
    by (simp add: init_state_def vote_args_def)
qed

text \<open>
  C4 as stated fails on the batch of a vote for 2, an undecodable log and a vote for 5:
  the failed cycle leaves the vote for 2 in the tally and never counts the vote for 5,
  and the retry of the same range counts the vote for 2 a second time.
\<close>

theorem partial_batch_counterexample:
  "chain_listener_cycle (rpc_logs 100 bad_batch) init_state =
     (Some DecodeError, init_state\<lparr>requests := [(100, 100)], tally := [(2, 1)]\<rparr>) \<and>
   tally (chain_listener_cycles [rpc_logs 100 bad_batch, rpc_logs 100 bad_batch] init_state) = [(2, 2)]"
  by (simp add: chain_listener_cycle_def rpc_logs_def init_state_def bad_batch_def vote_def vote_args_def)

text \<open>
  C5. chainplaysTESTING.py returns at the first tick that returns \<^verbatim>\<open>False\<close>
  (\<open>main_TESTING_signal_is_last\<close>). chainplays.py and chainplaysChaos.py drop the
  value of every tick: on an emulator whose ticks all return \<^verbatim>\<open>False\<close> they run
  the 240 ticks of the warm-up and then press and release the queued button.
\<close>

theorem termination_signal_ignored:
  "tick_result closed_pyboy 0 = False \<and>
   ops (snd (main [[''a'']] closed_pyboy)) =
     replicate 240 Tick @ [Button ''a'' True] @ replicate 6 Tick @ [Button ''a'' False] @
     replicate 2 Tick \<and>
   ops (snd (main_Chaos [[''a'']] closed_pyboy)) =
     replicate 240 Tick @ [Button ''a'' True, Tick, Button ''a'' False] \<and>
   fst (main_TESTING [[''a'']] closed_pyboy) = Returned \<and>
   ops (snd (snd (main_TESTING [[''a'']] closed_pyboy))) = [Tick]"
proof -
  have a: "tick_result closed_pyboy 0 = False" by (simp add: closed_pyboy_def)
  have w: "ops (snd (main [[''a'']] closed_pyboy)) =
     replicate 240 Tick @ [Button ''a'' True] @ replicate 6 Tick @ [Button ''a'' False] @
     replicate 2 Tick"
    by (simp add: main_def PRINT_ONLY_def main_iteration_def ops_tick_times button_simps
        closed_pyboy_def)
  have c: "ops (snd (main_Chaos [[''a'']] closed_pyboy)) =
     replicate 240 Tick @ [Button ''a'' True, Tick, Button ''a'' False]"
    by (simp add: main_Chaos_def PRINT_ONLY_def main_iteration_Chaos_def ops_tick_times
        button_simps tick_simps closed_pyboy_def)
  have "warmup_TESTING 240 closed_pyboy = (Returned, snd (tick closed_pyboy))"
    by (rule warmup_TESTING_closed) (simp_all add: closed_pyboy_def)
  then have t: "fst (main_TESTING [[''a'']] closed_pyboy) = Returned \<and>
   ops (snd (snd (main_TESTING [[''a'']] closed_pyboy))) = [Tick]"
    by (simp add: main_TESTING_def PRINT_ONLY_def tick_simps closed_pyboy_def)
  show ?thesis using a w c t by simp
qed

text \<open>
  C6. In chaos mode a cycle puts on the queue, behind what is there, the button of
  every vote it decodes that has a mapped index, one per vote, in the order of the
  logs, and nothing for the other votes. The votes it decodes are \<open>evts\<close>: all the logs,
  or the logs before the first that does not decode (every batch splits so,
  \<open>decoded_prefix_exists\<close>). When all decode, the cursor moves past the head.
\<close>

theorem chaos_votes_enqueued_in_order:
  assumes "block_number w3 = Inr head" and "last_block s \<le> head"
    and "get_logs w3 (last_block s) head = Inr (map MoveLog evts @ rest)"
    and "rest = [] \<or> (\<exists>post. rest = Undecodable # post)"
  shows "actions_q (snd (chain_listener_cycle_Chaos w3 s)) =
           actions_q s @ List.map_filter CMD_INDEX_TO_BUTTON (map cmd evts) \<and>
         (rest = [] \<longrightarrow>
            chain_listener_cycle_Chaos w3 s =
              (None,
               s\<lparr>requests := requests s @ [(last_block s, head)],
                 actions_q := actions_q s @ List.map_filter CMD_INDEX_TO_BUTTON (map cmd evts),
                 last_block := head + 1\<rparr>))"
proof (cases "rest = []")
  case True
  then show ?thesis using assms(1-3)
    by (simp add: chain_listener_cycle_Chaos_def process_logs_Chaos_decodable)
next
  case False
  then obtain post where "rest = Undecodable # post" using assms(4) by blast
  then show ?thesis using assms(1-3)
    by (simp add: chain_listener_cycle_Chaos_def process_logs_Chaos_undecodable)
qed

theorem chaos_votes_enqueued_in_order_witness:
  "block_number (rpc_logs 100 scenario_logs) = Inr 100 \<and> last_block init_state \<le> 100 \<and>
   get_logs (rpc_logs 100 scenario_logs) (last_block init_state) 100 =
     Inr (map MoveLog [vote_args 2, vote_args 2, vote_args 5] @ []) \<and>
   chain_listener_cycle_Chaos (rpc_logs 100 scenario_logs) init_state =
     (None,
      \<lparr>last_block = 101, tally = [], actions_q = [''left'', ''left'', ''b''],
        requests = [(100, 100)]\<rparr>) \<and>
   block_number (rpc_logs 100 [vote 4, Undecodable]) = Inr 100 \<and> last_block empty_tally_state \<le> 100 \<and>
   get_logs (rpc_logs 100 [vote 4, Undecodable]) (last_block empty_tally_state) 100 =
     Inr (map MoveLog [vote_args 4] @ [Undecodable]) \<and>
   actions_q (snd (chain_listener_cycle_Chaos (rpc_logs 100 [vote 4, Undecodable]) empty_tally_state)) =
     actions_q empty_tally_state @ [''a'']"
proof -
  have b: "block_number (rpc_logs 100 scenario_logs) = Inr 100" by (simp add: rpc_logs_def)
  have l: "last_block init_state \<le> 100" by (simp add: init_state_def)
  have g: "get_logs (rpc_logs 100 scenario_logs) (last_block init_state) 100 =
     Inr (map MoveLog [vote_args 2, vote_args 2, vote_args 5] @ [])"
    by (simp add: rpc_logs_def scenario_logs_def vote_def)
  have n: "([]::raw_log list) = [] \<or> (\<exists>post. ([]::raw_log list) = Undecodable # post)" by simp
  have b4: "block_number (rpc_logs 100 [vote 4, Undecodable]) = Inr 100" by (simp add: rpc_logs_def)
  have l4: "last_block empty_tally_state \<le> 100" by (simp add: empty_tally_state_def)
  have g4: "get_logs (rpc_logs 100 [vote 4, Undecodable]) (last_block empty_tally_state) 100 =
     Inr (map MoveLog [vote_args 4] @ [Undecodable])"
    by (simp add: rpc_logs_def vote_def)
  have n4: "[Undecodable] = [] \<or> (\<exists>post. [Undecodable] = Undecodable # post)" by simp
  have r: "chain_listener_cycle_Chaos (rpc_logs 100 scenario_logs) init_state =
     (None,
      \<lparr>last_block = 101, tally = [], actions_q = [''left'', ''left'', ''b''],
        requests = [(100, 100)]\<rparr>)"
    using chaos_votes_enqueued_in_order [OF b l g n]
    by (simp add: init_state_def vote_args_def CMD_INDEX_TO_BUTTON_def map_filter_simps)
  have r4: "actions_q (snd (chain_listener_cycle_Chaos (rpc_logs 100 [vote 4, Undecodable])
        empty_tally_state)) = actions_q empty_tally_state @ [''a'']"
    using chaos_votes_enqueued_in_order [OF b4 l4 g4 n4]
    by (simp add: vote_args_def CMD_INDEX_TO_BUTTON_def map_filter_simps)
  show ?thesis using b l g r b4 l4 g4 r4 by simp
qed

text \<open>
  C7, as the code has it. The listener counts every decoded index, mapped or not; the
  aggregator drops an unmapped winner. So at every point of a run of chainplays.py
  every action on the queue is one of the eight buttons of the mapping.
\<close>

theorem queue_holds_mapped_buttons:
  assumes "windowed_reachable s"
  shows "set (actions_q s) \<subseteq> ran CMD_INDEX_TO_BUTTON"
  using assms
proof (induction rule: windowed_reachable.induct)
  case (start s)
  then show ?case by simp
next
  case (step s s')
  then show ?case using windowed_step_queue [of s s'] by blast
qed

theorem queue_holds_mapped_buttons_witness:
  "windowed_reachable after_scenario_tick \<and> actions_q after_scenario_tick = [''left''] \<and>
   set (actions_q after_scenario_tick) \<subseteq> ran CMD_INDEX_TO_BUTTON"
proof -
  have c: "windowed_reachable (snd (chain_listener_cycle (rpc_logs 100 scenario_logs) init_state))"
    using init_state_reachable by (rule chain_listener_cycle_reachable)
  have e: "after_scenario_tick =
      \<lparr>last_block = 101, tally = [], actions_q = [''left''], requests = [(100, 100)]\<rparr>"
    by (simp add: after_scenario_tick_def after_scenario_tick_eq)
  have "windowed_step (snd (chain_listener_cycle (rpc_logs 100 scenario_logs) init_state))
      after_scenario_tick"
    unfolding e using after_scenario_tick_eq by (rule windowed_step.aggregator_tick)
  with c have r: "windowed_reachable after_scenario_tick" by (rule windowed_reachable.step)
  have q: "actions_q after_scenario_tick = [''left'']" by (simp add: e)
  show ?thesis using r queue_holds_mapped_buttons [OF r] q by simp
qed

text \<open>
  C7 as stated fails after one vote for the index 9: the tally holds the entry 9, which
  the mapping does not have.
\<close>

theorem tally_holds_unmapped_index:
  "windowed_reachable after_unmapped_vote \<and> tally after_unmapped_vote = [(9, 1)] \<and>
   CMD_INDEX_TO_BUTTON 9 = None"
proof -
  have "windowed_reachable after_unmapped_vote"
    unfolding after_unmapped_vote_def using init_state_reachable
    by (rule chain_listener_cycle_reachable)
  moreover have "tally after_unmapped_vote = [(9, 1)]"
    by (simp add: after_unmapped_vote_def chain_listener_cycle_def rpc_logs_def init_state_def
        vote_def vote_args_def)
  moreover have "CMD_INDEX_TO_BUTTON 9 = None" by (simp add: CMD_INDEX_TO_BUTTON_def)
  ultimately show ?thesis by simp
qed

text \<open>
  C8, as the code has it. For an action taken off the queue: chainplays.py presses,
  ticks 6 times, releases, ticks 2 times; chainplaysChaos.py presses, ticks once and
  releases, with no tick after the release; chainplaysTESTING.py presses, ticks once
  and, unless that tick signalled termination, releases and ticks once. With no action
  on the queue each variant ticks exactly once.
\<close>

theorem applicator_press_and_release:
  "fst (main_iteration (btn # q) p) = q \<and>
   ops (snd (main_iteration (btn # q) p)) =
     ops p @ [Button btn True] @ replicate 6 Tick @ [Button btn False] @ replicate 2 Tick \<and>
   fst (main_iteration_Chaos (btn # q) p) = q \<and>
   ops (snd (main_iteration_Chaos (btn # q) p)) = ops p @ [Button btn True, Tick, Button btn False] \<and>
   fst (snd (main_iteration_TESTING (btn # q) p)) = q \<and>
   ops (snd (snd (main_iteration_TESTING (btn # q) p))) =
     ops p @ [Button btn True, Tick] @
       (if tick_result p (ticks p) then [Button btn False, Tick] else []) \<and>
   ops (snd (main_iteration [] p)) = ops p @ [Tick] \<and>
   ops (snd (main_iteration_Chaos [] p)) = ops p @ [Tick] \<and>
   ops (snd (snd (main_iteration_TESTING [] p))) = ops p @ [Tick]"
proof -
  have w: "fst (main_iteration (btn # q) p) = q \<and>
   ops (snd (main_iteration (btn # q) p)) =
     ops p @ [Button btn True] @ replicate 6 Tick @ [Button btn False] @ replicate 2 Tick"
    by (simp add: main_iteration_def ops_tick_times button_simps)
  have c: "fst (main_iteration_Chaos (btn # q) p) = q \<and>
   ops (snd (main_iteration_Chaos (btn # q) p)) = ops p @ [Button btn True, Tick, Button btn False]"
    by (simp add: main_iteration_Chaos_def tick_simps button_simps)
  have t: "fst (snd (main_iteration_TESTING (btn # q) p)) = q \<and>
   ops (snd (snd (main_iteration_TESTING (btn # q) p))) =
     ops p @ [Button btn True, Tick] @
       (if tick_result p (ticks p) then [Button btn False, Tick] else [])"
    by (simp add: main_iteration_TESTING_action tick_simps button_simps)
  have i: "ops (snd (main_iteration [] p)) = ops p @ [Tick] \<and>
   ops (snd (main_iteration_Chaos [] p)) = ops p @ [Tick] \<and>
   ops (snd (snd (main_iteration_TESTING [] p))) = ops p @ [Tick]"
    by (simp add: main_iteration_def main_iteration_Chaos_def main_iteration_TESTING_def tick_def)
  show ?thesis using w c t i by simp
qed

theorem applicator_press_and_release_witness:
  "ops (snd (main_iteration [''a''] open_pyboy)) =
     [Button ''a'' True, Tick, Tick, Tick, Tick, Tick, Tick, Button ''a'' False, Tick, Tick] \<and>
   ops (snd (snd (main_iteration_TESTING [''a''] open_pyboy))) =
     [Button ''a'' True, Tick, Button ''a'' False, Tick] \<and>
   ops (snd (main_iteration [] open_pyboy)) = [Tick]"
  using applicator_press_and_release [of "''a''" "[]" open_pyboy]
  by (simp add: open_pyboy_def numeral_eq_Suc)

text \<open>
  C8 as stated fails in chaos mode: no tick follows the release, and the next queued
  action is pressed right after it.
\<close>

theorem chaos_has_no_released_step:
  "ops (snd (main_iteration_Chaos [''a''] open_pyboy)) =
     [Button ''a'' True, Tick, Button ''a'' False] \<and>
   ops (snd (main_loop_Chaos [[''a'', ''b''], []] [] open_pyboy)) =
     [Button ''a'' True, Tick, Button ''a'' False, Button ''b'' True, Tick, Button ''b'' False]"
  by (simp add: main_iteration_Chaos_def tick_def button_def open_pyboy_def)

text \<open>
  C9. An aggregation tick on an empty tally changes nothing: the queue is as it was and
  the tally is still empty.
\<close>

theorem empty_tally_tick_is_noop:
  assumes "tally s = []"
  shows "vote_aggregator_tick s = Inr s"
  using assms by (simp add: vote_aggregator_tick_def)

theorem empty_tally_tick_is_noop_witness:
  "tally empty_tally_state = [] \<and> vote_aggregator_tick empty_tally_state = Inr empty_tally_state
   \<and> actions_q empty_tally_state = [''a'']"
proof -
  have h: "tally empty_tally_state = []" by (simp add: empty_tally_state_def)
  show ?thesis using h empty_tally_tick_is_noop [OF h] by (simp add: empty_tally_state_def)
qed

text \<open>
  C10. When the most common index of the tally is outside 0 to 7, the tick clears the
  whole tally and leaves the queue as it was: the votes for the other indices are gone.
\<close>

theorem unmapped_winner_clears_tally:
  assumes "most_common_1 (tally s) = [(idx, c)]" and "idx < 0 \<or> 7 < idx"
  shows "vote_aggregator_tick s = Inr (s\<lparr>tally := []\<rparr>)"
proof -
  obtain x xs where t: "tally s = x # xs" and m: "max_item x xs = (idx, c)"
    using assms(1) by (cases "tally s") auto
  have "CMD_INDEX_TO_BUTTON idx = None" using assms(2) by (rule cmd_index_unmapped)
  then show ?thesis using vote_aggregator_tick_nonempty [OF t m] by simp
qed

theorem unmapped_winner_clears_tally_witness:
  "most_common_1 (tally unmapped_winner_state) = [(9, 3)] \<and> ((9::int) < 0 \<or> (7::int) < 9) \<and>
   vote_aggregator_tick unmapped_winner_state =
     Inr \<lparr>last_block = 100, tally = [], actions_q = [''a''], requests = []\<rparr>"
proof -
  have h: "most_common_1 (tally unmapped_winner_state) = [(9, 3)]"
    by (simp add: unmapped_winner_state_def)
  have o: "(9::int) < 0 \<or> (7::int) < 9" by simp
  show ?thesis using h o unmapped_winner_clears_tally [OF h o]
    by (simp add: unmapped_winner_state_def)
qed

end
